theory Spec2Isabelle
  imports Main "HOL-Library.Sublist"
begin

section \<open>Positional inverted index and phrase queries\<close>

text \<open>
  A shallow embedding of the notebook \<^verbatim>\<open>IR_InvertedMatrix_Workshop.ipynb\<close>:
  the tokenizer \<^verbatim>\<open>basic_tokenizer\<close>, the normalizer \<^verbatim>\<open>normalize_tokens\<close>, the two
  definitions of \<^verbatim>\<open>build_inverted_index\<close> (the cell of Step 4 and the test cell), and
  \<^verbatim>\<open>phrase_in_doc\<close> and \<^verbatim>\<open>phrase_search\<close>, which the two cells define alike.
\<close>

subsection \<open>Data model\<close>

text \<open>
  The index is the nested dictionary \<^verbatim>\<open>{token: {doc_id: [pos, ...]}}\<close>. Document
  identifiers and positions are Python integers. A Python exception is a value of
  \<open>py_error\<close>: a function that may raise returns \<open>py_error + 'a\<close>.
\<close>

type_synonym postings = "int \<rightharpoonup> int list"

type_synonym index = "string \<rightharpoonup> postings"

datatype py_error = IndexError

subsection \<open>Tokenizer and normalizer\<close>

text \<open>
  A text is a string of characters with code points below 256. On these,
  \<^verbatim>\<open>str.lower\<close> moves \<^verbatim>\<open>A-Z\<close> and the upper-case letters of Latin-1, and the
  white space of \<^verbatim>\<open>\s\<close> and of \<^verbatim>\<open>str.split\<close> is the code points 9 to 13, 28 to 32,
  133 and 160.
\<close>

definition lower_char :: "char \<Rightarrow> char" where
  "lower_char c =
     (let n = (of_char c :: nat)
      in if (65 \<le> n \<and> n \<le> 90) \<or> (192 \<le> n \<and> n \<le> 222 \<and> n \<noteq> 215)
         then char_of (n + 32) else c)"

definition lower :: "string \<Rightarrow> string" where
  "lower text = map lower_char text"

definition is_space :: "char \<Rightarrow> bool" where
  "is_space c =
     (let n = (of_char c :: nat)
      in (9 \<le> n \<and> n \<le> 13) \<or> (28 \<le> n \<and> n \<le> 32) \<or> n = 133 \<or> n = 160)"

definition is_kept :: "char \<Rightarrow> bool" where
  \<comment> \<open>the complement of the class \<^verbatim>\<open>[^a-z0-9\s]\<close>\<close>
  "is_kept c =
     (let n = (of_char c :: nat)
      in (97 \<le> n \<and> n \<le> 122) \<or> (48 \<le> n \<and> n \<le> 57) \<or> is_space c)"

definition strip_punct :: "string \<Rightarrow> string" where
  \<comment> \<open>\<^verbatim>\<open>re.sub(r'[^a-z0-9\s]', '', text)\<close>\<close>
  "strip_punct text = filter is_kept text"

fun split_ws :: "string \<Rightarrow> string \<Rightarrow> string list" where
  "split_ws [] cur = (if cur = [] then [] else [cur])"
| "split_ws (c # cs) cur =
     (if is_space c
      then (if cur = [] then split_ws cs [] else cur # split_ws cs [])
      else split_ws cs (cur @ [c]))"

definition split :: "string \<Rightarrow> string list" where
  \<comment> \<open>\<^verbatim>\<open>text.split()\<close>: the maximal runs of characters that are not white space\<close>
  "split text = split_ws text []"

definition basic_tokenizer :: "string \<Rightarrow> string list" where
  "basic_tokenizer text = split (strip_punct (lower text))"

text \<open>
  \<^verbatim>\<open>normalize_tokens\<close> takes its stop words and its stemmer from NLTK, which is not
  part of the repository: they are the parameters \<open>stop_words\<close> and \<open>stem\<close>.
\<close>

definition normalize_tokens :: "string set \<Rightarrow> (string \<Rightarrow> string) \<Rightarrow> string \<Rightarrow> string list" where
  "normalize_tokens stop_words stem text =
     (let tokens = split (strip_punct (lower text))
      in map stem (filter (\<lambda>t. t \<notin> stop_words) tokens))"

subsection \<open>Building the index\<close>

definition enumerate_py :: "'a list \<Rightarrow> (int \<times> 'a) list" where
  \<comment> \<open>\<^verbatim>\<open>enumerate(xs)\<close>\<close>
  "enumerate_py xs = map (\<lambda>(i, x). (int i, x)) (List.enumerate 0 xs)"

text \<open>
  The body of the inner loop: create the entry of the token and the entry of the
  document when they are missing, then append the position.
\<close>

definition add_position :: "index \<Rightarrow> string \<Rightarrow> int \<Rightarrow> int \<Rightarrow> index" where
  "add_position inverted_index token doc_id pos =
     (let by_doc = (case inverted_index token of None \<Rightarrow> Map.empty | Some p \<Rightarrow> p);
          positions = (case by_doc doc_id of None \<Rightarrow> [] | Some ps \<Rightarrow> ps)
      in inverted_index(token \<mapsto> by_doc(doc_id \<mapsto> positions @ [pos])))"

text \<open>
  The cell of Step 4. Its inner loop also fills the set \<^verbatim>\<open>seen_in_doc\<close>, which starts
  empty at every document. The normalizer the cell calls is \<^verbatim>\<open>normalize_tokens\<close>; it
  is the parameter \<open>normalizer\<close> here.
\<close>

definition index_tokens :: "int \<Rightarrow> string list \<Rightarrow> index \<Rightarrow> index \<times> string set" where
  "index_tokens doc_id tokens inverted_index =
     fold (\<lambda>(pos, token) (idx, seen_in_doc).
             (add_position idx token doc_id pos, insert token seen_in_doc))
          (enumerate_py tokens) (inverted_index, {})"

definition build_inverted_index :: "(string \<Rightarrow> string list) \<Rightarrow> string list \<Rightarrow> index" where
  "build_inverted_index normalizer docs =
     fold (\<lambda>(doc_id, text) inverted_index.
             fst (index_tokens doc_id (normalizer text) inverted_index))
          (enumerate_py docs) Map.empty"

text \<open>
  The test cell: the same loops with no \<^verbatim>\<open>seen_in_doc\<close>. The normalizer the cell
  calls is \<^verbatim>\<open>basic_tokenizer\<close>.
\<close>

definition index_tokens_test :: "int \<Rightarrow> string list \<Rightarrow> index \<Rightarrow> index" where
  "index_tokens_test doc_id tokens inverted_index =
     fold (\<lambda>(pos, token) idx. add_position idx token doc_id pos)
          (enumerate_py tokens) inverted_index"

definition build_inverted_index_test :: "(string \<Rightarrow> string list) \<Rightarrow> string list \<Rightarrow> index" where
  "build_inverted_index_test normalizer docs =
     fold (\<lambda>(doc_id, text) inverted_index.
             index_tokens_test doc_id (normalizer text) inverted_index)
          (enumerate_py docs) Map.empty"

subsection \<open>Phrase queries\<close>

text \<open>
  The first loop of \<^verbatim>\<open>phrase_in_doc\<close>: \<open>None\<close> when it leaves by \<^verbatim>\<open>return False\<close>,
  otherwise the list \<^verbatim>\<open>positions_lists\<close> it has built.
\<close>

fun collect_positions :: "index \<Rightarrow> string list \<Rightarrow> int \<Rightarrow> int list list \<Rightarrow> int list list option" where
  "collect_positions inverted_index [] doc_id positions_lists = Some positions_lists"
| "collect_positions inverted_index (token # rest) doc_id positions_lists =
     (case inverted_index token of
        None \<Rightarrow> None
      | Some by_doc \<Rightarrow>
          (case by_doc doc_id of
             None \<Rightarrow> None
           | Some ps \<Rightarrow> collect_positions inverted_index rest doc_id (positions_lists @ [ps])))"

definition all_offsets :: "int list list \<Rightarrow> int \<Rightarrow> bool" where
  \<comment> \<open>\<^verbatim>\<open>all((start_pos + offset) in positions_lists[offset] for offset in range(1, len(positions_lists)))\<close>\<close>
  "all_offsets positions_lists start_pos =
     list_all (\<lambda>offset. start_pos + int offset \<in> set (positions_lists ! offset))
       [1 ..< length positions_lists]"

fun scan_starts :: "int list list \<Rightarrow> int list \<Rightarrow> bool" where
  "scan_starts positions_lists [] = False"
| "scan_starts positions_lists (start_pos # rest) =
     (if all_offsets positions_lists start_pos then True
      else scan_starts positions_lists rest)"

definition phrase_in_doc :: "index \<Rightarrow> string list \<Rightarrow> int \<Rightarrow> py_error + bool" where
  "phrase_in_doc inverted_index phrase_tokens doc_id =
     (case collect_positions inverted_index phrase_tokens doc_id [] of
        None \<Rightarrow> Inr False
      | Some positions_lists \<Rightarrow>
          (case positions_lists of
             [] \<Rightarrow> Inl IndexError
           | first_positions # _ \<Rightarrow> Inr (scan_starts positions_lists first_positions)))"

fun search_docs :: "index \<Rightarrow> string list \<Rightarrow> int list \<Rightarrow> int list \<Rightarrow> py_error + int list" where
  "search_docs inverted_index phrase_tokens [] matched_docs = Inr matched_docs"
| "search_docs inverted_index phrase_tokens (doc_id # rest) matched_docs =
     (case phrase_in_doc inverted_index phrase_tokens doc_id of
        Inl e \<Rightarrow> Inl e
      | Inr found \<Rightarrow>
          search_docs inverted_index phrase_tokens rest
            (if found then matched_docs @ [doc_id] else matched_docs))"

definition phrase_search :: "(string \<Rightarrow> string list) \<Rightarrow> index \<Rightarrow> string \<Rightarrow> string list \<Rightarrow> py_error + int list" where
  "phrase_search normalizer inverted_index phrase docs =
     search_docs inverted_index (normalizer phrase) (map int [0 ..< length docs]) []"

text \<open>The documents of the test cell.\<close>

definition sample_docs :: "string list" where
  "sample_docs =
     [''Machine learning is fascinating.'',
      ''Deep learning is a subset of machine learning.'',
      ''Artificial intelligence includes machine learning.'',
      ''Learning about machine algorithms.'']"

subsection \<open>Notions the properties are stated with\<close>

text \<open>
  \<open>positions_of t toks\<close> lists, in ascending order, the zero-based offsets at which
  the term \<open>t\<close> occurs in the token sequence \<open>toks\<close>.
\<close>

definition positions_of :: "string \<Rightarrow> string list \<Rightarrow> int list" where
  "positions_of t toks = map int (filter (\<lambda>p. toks ! p = t) [0 ..< length toks])"

text \<open>
  \<open>lookup_positions idx t d\<close> is the entry \<^verbatim>\<open>idx[t][d]\<close> when the term is a key of the
  index and the document a key under it, and \<open>None\<close> otherwise; \<open>position_list\<close>
  reads a missing entry as the empty list.
\<close>

definition lookup_positions :: "index \<Rightarrow> string \<Rightarrow> int \<Rightarrow> int list option" where
  "lookup_positions idx t d = (case idx t of None \<Rightarrow> None | Some by_doc \<Rightarrow> by_doc d)"

definition position_list :: "index \<Rightarrow> string \<Rightarrow> int \<Rightarrow> int list" where
  "position_list idx t d = (case lookup_positions idx t d of None \<Rightarrow> [] | Some ps \<Rightarrow> ps)"

text \<open>
  The invariant of the builder's loops: a term that is a key has a document under it,
  and no stored position list is empty.
\<close>

definition wf_index :: "index \<Rightarrow> bool" where
  "wf_index idx =
     (\<forall>t by_doc. idx t = Some by_doc \<longrightarrow> (\<exists>d. by_doc d \<noteq> None) \<and> (\<forall>d. by_doc d \<noteq> Some []))"

text \<open>A small index written out, \<^verbatim>\<open>{'a': {0: [0, 2]}, 'b': {0: [1]}}\<close>.\<close>

definition small_index :: index where
  "small_index = [''a'' \<mapsto> [0 \<mapsto> [0, 2]], ''b'' \<mapsto> [0 \<mapsto> [1]]]"

section \<open>Properties\<close>

subsection \<open>Occurrences of a term\<close>

lemma positions_of_Nil: "positions_of t [] = []"
  by (simp add: positions_of_def)

lemma positions_of_snoc:
  "positions_of t (xs @ [x]) = positions_of t xs @ (if x = t then [int (length xs)] else [])"
proof -
  have "filter (\<lambda>p. (xs @ [x]) ! p = t) [0 ..< length xs] = filter (\<lambda>p. xs ! p = t) [0 ..< length xs]"
    by (rule filter_cong) (simp_all add: nth_append)
  then show ?thesis by (simp add: positions_of_def)
qed

lemma set_positions_of:
  "set (positions_of t toks) = {int p | p. p < length toks \<and> toks ! p = t}"
  by (auto simp: positions_of_def)

lemma length_positions_of: "length (positions_of t toks) = count_list toks t"
  by (induction toks rule: rev_induct) (simp_all add: positions_of_Nil positions_of_snoc)

lemma positions_of_empty_iff: "positions_of t toks = [] \<longleftrightarrow> t \<notin> set toks"
  by (induction toks rule: rev_induct) (simp_all add: positions_of_Nil positions_of_snoc)

lemma sorted_positions_of: "sorted_wrt (<) (positions_of t toks)"
  by (simp add: positions_of_def sorted_wrt_map sorted_wrt_filter)

subsection \<open>The loops of the builder\<close>

lemma enumerate_py_Nil: "enumerate_py [] = []"
  by (simp add: enumerate_py_def)

lemma enumerate_py_snoc: "enumerate_py (xs @ [x]) = enumerate_py xs @ [(int (length xs), x)]"
  by (simp add: enumerate_py_def enumerate_append_eq)

lemma snd_enumerate_py: "(i, x) \<in> set (enumerate_py xs) \<Longrightarrow> x \<in> set xs"
  by (induction xs rule: rev_induct) (auto simp: enumerate_py_Nil enumerate_py_snoc)

lemma position_list_empty: "position_list Map.empty t d = []"
  by (simp add: position_list_def lookup_positions_def)

lemma position_list_add_position:
  "position_list (add_position idx t d p) t' d' =
     position_list idx t' d' @ (if t' = t \<and> d' = d then [p] else [])"
  by (auto simp: position_list_def lookup_positions_def add_position_def Let_def split: option.splits)

lemma wf_empty: "wf_index Map.empty"
  by (simp add: wf_index_def)

lemma wf_add_position: "wf_index idx \<Longrightarrow> wf_index (add_position idx t d p)"
  unfolding wf_index_def add_position_def Let_def
  by (auto split: option.splits if_splits)

lemma index_tokens_test_Nil: "index_tokens_test d [] idx = idx"
  by (simp add: index_tokens_test_def enumerate_py_Nil)

lemma index_tokens_test_snoc:
  "index_tokens_test d (toks @ [tok]) idx =
     add_position (index_tokens_test d toks idx) tok d (int (length toks))"
  by (simp add: index_tokens_test_def enumerate_py_snoc)

lemma position_list_index_tokens_test:
  "position_list (index_tokens_test d toks idx) t' d' =
     position_list idx t' d' @ (if d' = d then positions_of t' toks else [])"
  by (induction toks rule: rev_induct)
     (simp_all add: index_tokens_test_Nil index_tokens_test_snoc position_list_add_position
        positions_of_Nil positions_of_snoc)

lemma wf_index_tokens_test: "wf_index idx \<Longrightarrow> wf_index (index_tokens_test d toks idx)"
  by (induction toks rule: rev_induct)
     (simp_all add: index_tokens_test_Nil index_tokens_test_snoc wf_add_position)

lemma build_test_Nil: "build_inverted_index_test nrm [] = Map.empty"
  by (simp add: build_inverted_index_test_def enumerate_py_Nil)

lemma build_test_snoc:
  "build_inverted_index_test nrm (docs @ [doc]) =
     index_tokens_test (int (length docs)) (nrm doc) (build_inverted_index_test nrm docs)"
  by (simp add: build_inverted_index_test_def enumerate_py_snoc)

lemma position_list_build_test:
  "position_list (build_inverted_index_test nrm docs) t d =
     (if 0 \<le> d \<and> d < int (length docs) then positions_of t (nrm (docs ! nat d)) else [])"
proof (induction docs arbitrary: d rule: rev_induct)
  case Nil
  show ?case by (auto simp: build_test_Nil position_list_empty)
next
  case (snoc doc docs)
  show ?case
  proof (cases "d = int (length docs)")
    case True
    then show ?thesis
      by (simp add: build_test_snoc position_list_index_tokens_test snoc.IH)
  next
    case False
    then have "nat d \<noteq> length docs \<or> d < 0" by linarith
    with False show ?thesis
      by (auto simp: build_test_snoc position_list_index_tokens_test snoc.IH nth_append)
  qed
qed

lemma wf_build_test: "wf_index (build_inverted_index_test nrm docs)"
  by (induction docs rule: rev_induct)
     (simp_all add: build_test_Nil build_test_snoc wf_empty wf_index_tokens_test)

text \<open>The set \<^verbatim>\<open>seen_in_doc\<close> is carried along and never read.\<close>

lemma fst_fold_seen:
  "fst (fold (\<lambda>(pos, token) (idx, seen_in_doc).
               (add_position idx token d pos, insert token seen_in_doc)) xs (idx0, s0))
   = fold (\<lambda>(pos, token) idx. add_position idx token d pos) xs idx0"
  by (induction xs arbitrary: idx0 s0) (simp_all add: case_prod_beta)

lemma fst_index_tokens: "fst (index_tokens d toks idx) = index_tokens_test d toks idx"
  by (simp add: index_tokens_def index_tokens_test_def fst_fold_seen)

lemma build_eq_build_test: "build_inverted_index nrm docs = build_inverted_index_test nrm docs"
  by (simp add: build_inverted_index_def build_inverted_index_test_def fst_index_tokens)

lemma build_test_cong:
  assumes "\<forall>doc \<in> set docs. nrm1 doc = nrm2 doc"
  shows "build_inverted_index_test nrm1 docs = build_inverted_index_test nrm2 docs"
  unfolding build_inverted_index_test_def
proof (rule fold_cong)
  fix x assume mem: "x \<in> set (enumerate_py docs)"
  obtain i doc where x: "x = (i, doc)" by (cases x)
  from mem have "doc \<in> set docs" unfolding x by (rule snd_enumerate_py)
  with assms have "nrm1 doc = nrm2 doc" by blast
  then show "(case x of (doc_id, text) \<Rightarrow> \<lambda>inverted_index. index_tokens_test doc_id (nrm1 text) inverted_index)
      = (case x of (doc_id, text) \<Rightarrow> \<lambda>inverted_index. index_tokens_test doc_id (nrm2 text) inverted_index)"
    by (simp add: x)
qed simp_all

subsection \<open>Reading a well-formed index\<close>

lemma wf_None_iff: "wf_index idx \<Longrightarrow> idx t = None \<longleftrightarrow> (\<forall>d. position_list idx t d = [])"
  unfolding wf_index_def position_list_def lookup_positions_def
  by (cases "idx t") (auto split: option.splits, metis option.exhaust)

lemma wf_doc_None_iff:
  "wf_index idx \<Longrightarrow> idx t = Some by_doc \<Longrightarrow> by_doc d = None \<longleftrightarrow> position_list idx t d = []"
  unfolding wf_index_def position_list_def lookup_positions_def
  by (auto split: option.splits)

lemma lookup_build_None_iff:
  "lookup_positions (build_inverted_index_test nrm docs) t d = None \<longleftrightarrow>
     position_list (build_inverted_index_test nrm docs) t d = []"
proof (cases "build_inverted_index_test nrm docs t")
  case None
  then show ?thesis by (simp add: lookup_positions_def position_list_def)
next
  case (Some by_doc)
  then show ?thesis
    using wf_doc_None_iff [OF wf_build_test Some, of d] by (simp add: lookup_positions_def)
qed

lemma lookup_build:
  "lookup_positions (build_inverted_index nrm docs) t d =
     (if 0 \<le> d \<and> d < int (length docs) \<and> t \<in> set (nrm (docs ! nat d))
      then Some (positions_of t (nrm (docs ! nat d))) else None)"
proof -
  let ?idx = "build_inverted_index_test nrm docs"
  have fl: "position_list ?idx t d =
      (if 0 \<le> d \<and> d < int (length docs) then positions_of t (nrm (docs ! nat d)) else [])"
    by (rule position_list_build_test)
  show ?thesis
  proof (cases "lookup_positions ?idx t d")
    case None
    then have "position_list ?idx t d = []" by (simp add: lookup_build_None_iff)
    with None show ?thesis
      unfolding build_eq_build_test fl by (auto simp: positions_of_empty_iff split: if_splits)
  next
    case (Some ps)
    then have ne: "position_list ?idx t d \<noteq> []"
      using lookup_build_None_iff [of nrm docs t d] by simp
    from Some have "position_list ?idx t d = ps" by (simp add: position_list_def)
    with Some ne show ?thesis
      unfolding build_eq_build_test fl by (auto simp: positions_of_empty_iff split: if_splits)
  qed
qed

lemma build_key_iff:
  "build_inverted_index nrm docs t \<noteq> None \<longleftrightarrow> (\<exists>i < length docs. t \<in> set (nrm (docs ! i)))"
proof -
  have "build_inverted_index nrm docs t = None \<longleftrightarrow>
      (\<forall>d. position_list (build_inverted_index_test nrm docs) t d = [])"
    unfolding build_eq_build_test by (rule wf_None_iff [OF wf_build_test])
  also have "\<dots> \<longleftrightarrow> (\<forall>i < length docs. t \<notin> set (nrm (docs ! i)))"
  proof
    assume a: "\<forall>d. position_list (build_inverted_index_test nrm docs) t d = []"
    show "\<forall>i < length docs. t \<notin> set (nrm (docs ! i))"
    proof (intro allI impI)
      fix i assume "i < length docs"
      with a [rule_format, of "int i"] show "t \<notin> set (nrm (docs ! i))"
        by (simp add: position_list_build_test positions_of_empty_iff)
    qed
  next
    assume "\<forall>i < length docs. t \<notin> set (nrm (docs ! i))"
    then show "\<forall>d. position_list (build_inverted_index_test nrm docs) t d = []"
      by (auto simp: position_list_build_test positions_of_empty_iff)
  qed
  finally show ?thesis by auto
qed

subsection \<open>The loops of the phrase query\<close>

lemma collect_positions_eq:
  "collect_positions idx toks d acc =
     (if \<forall>t \<in> set toks. lookup_positions idx t d \<noteq> None
      then Some (acc @ map (\<lambda>t. position_list idx t d) toks) else None)"
  by (induction toks arbitrary: acc)
     (auto simp: lookup_positions_def position_list_def split: option.splits)

lemma scan_starts_iff: "scan_starts pls ss \<longleftrightarrow> (\<exists>s \<in> set ss. all_offsets pls s)"
  by (induction ss) auto

lemma all_offsets_map:
  "all_offsets (map (\<lambda>t. position_list idx t d) toks) s \<longleftrightarrow>
     (\<forall>k \<in> {1 ..< length toks}. s + int k \<in> set (position_list idx (toks ! k) d))"
  by (auto simp: all_offsets_def list_all_iff)

lemma phrase_in_doc_Nil: "phrase_in_doc idx [] d = Inl IndexError"
  by (simp add: phrase_in_doc_def)

lemma phrase_in_doc_nonempty:
  assumes "toks \<noteq> []"
  shows "phrase_in_doc idx toks d =
     Inr ((\<forall>t \<in> set toks. lookup_positions idx t d \<noteq> None) \<and>
          (\<exists>s \<in> set (position_list idx (toks ! 0) d).
             \<forall>k \<in> {1 ..< length toks}. s + int k \<in> set (position_list idx (toks ! k) d)))"
proof (cases "\<forall>t \<in> set toks. lookup_positions idx t d \<noteq> None")
  case False
  then have "collect_positions idx toks d [] = None"
    by (simp only: collect_positions_eq if_False)
  with False show ?thesis by (simp add: phrase_in_doc_def)
next
  case True
  obtain t rest where toks: "toks = t # rest" using assms by (cases toks) auto
  have "phrase_in_doc idx toks d =
          Inr (scan_starts (map (\<lambda>t. position_list idx t d) toks) (position_list idx t d))"
    using True by (simp add: phrase_in_doc_def collect_positions_eq toks)
  also have "scan_starts (map (\<lambda>t. position_list idx t d) toks) (position_list idx t d) \<longleftrightarrow>
      (\<exists>s \<in> set (position_list idx (toks ! 0) d).
             \<forall>k \<in> {1 ..< length toks}. s + int k \<in> set (position_list idx (toks ! k) d))"
    unfolding scan_starts_iff all_offsets_map by (simp add: toks)
  finally show ?thesis using True by simp
qed

lemma phrase_in_doc_single:
  "phrase_in_doc idx [t] d = Inr (\<exists>ps. lookup_positions idx t d = Some ps \<and> ps \<noteq> [])"
proof (cases "lookup_positions idx t d")
  case None
  then show ?thesis by (simp add: phrase_in_doc_nonempty)
next
  case (Some ps)
  then show ?thesis by (cases ps) (auto simp: phrase_in_doc_nonempty position_list_def)
qed

lemma phrase_in_doc_missing:
  assumes "t \<in> set toks" "lookup_positions idx t d = None"
  shows "phrase_in_doc idx toks d = Inr False"
proof -
  from assms(1) have "toks \<noteq> []" by auto
  with assms show ?thesis by (auto simp: phrase_in_doc_nonempty)
qed

lemma search_docs_nonempty:
  "toks \<noteq> [] \<Longrightarrow> search_docs idx toks ds acc =
     Inr (acc @ filter (\<lambda>d. phrase_in_doc idx toks d = Inr True) ds)"
  by (induction ds arbitrary: acc) (auto simp: phrase_in_doc_nonempty)

lemma search_docs_Nil_phrase:
  "search_docs idx [] ds acc = (if ds = [] then Inr acc else Inl IndexError)"
  by (cases ds) (simp_all add: phrase_in_doc_Nil)

lemma phrase_search_nonempty:
  "nrm phrase \<noteq> [] \<Longrightarrow> phrase_search nrm idx phrase docs =
     Inr (filter (\<lambda>d. phrase_in_doc idx (nrm phrase) d = Inr True) (map int [0 ..< length docs]))"
  by (simp add: phrase_search_def search_docs_nonempty)

lemma phrase_search_empty:
  "nrm phrase = [] \<Longrightarrow> phrase_search nrm idx phrase docs =
     (if docs = [] then Inr [] else Inl IndexError)"
  by (simp add: phrase_search_def search_docs_Nil_phrase)

text \<open>
  The result of a query with a non-empty token sequence: strictly ascending, without
  duplicates, within the document identifiers.
\<close>

lemma sorted_doc_ids: "sorted_wrt (<) (map int [0 ..< n])"
  by (simp add: sorted_wrt_map)

lemma phrase_search_sorted:
  assumes "phrase_search nrm idx phrase docs = Inr r"
  shows "sorted_wrt (<) r \<and> distinct r \<and> set r \<subseteq> {0 ..< int (length docs)}"
proof (cases "nrm phrase = []")
  case True
  with assms have "r = []" by (simp add: phrase_search_empty split: if_splits)
  then show ?thesis by simp
next
  case False
  let ?ids = "map int [0 ..< length docs]"
  from assms False have r: "r = filter (\<lambda>d. phrase_in_doc idx (nrm phrase) d = Inr True) ?ids"
    by (simp add: phrase_search_nonempty)
  have "sorted_wrt (<) r" unfolding r by (rule sorted_wrt_filter) (rule sorted_doc_ids)
  moreover have "distinct r" unfolding r by (simp add: distinct_map)
  moreover have "set r \<subseteq> {0 ..< int (length docs)}" unfolding r by auto
  ultimately show ?thesis by blast
qed

subsection \<open>A phrase is found where it occurs contiguously\<close>

lemma sublist_iff_nth:
  "sublist xs ys \<longleftrightarrow> (\<exists>p. p + length xs \<le> length ys \<and> (\<forall>k < length xs. ys ! (p + k) = xs ! k))"
proof
  assume "sublist xs ys"
  then obtain ps ss where "ys = ps @ xs @ ss" by (auto simp: sublist_def)
  then have "length ps + length xs \<le> length ys \<and> (\<forall>k < length xs. ys ! (length ps + k) = xs ! k)"
    by (simp add: nth_append)
  then show "\<exists>p. p + length xs \<le> length ys \<and> (\<forall>k < length xs. ys ! (p + k) = xs ! k)" ..
next
  assume "\<exists>p. p + length xs \<le> length ys \<and> (\<forall>k < length xs. ys ! (p + k) = xs ! k)"
  then obtain p where p: "p + length xs \<le> length ys" "\<forall>k < length xs. ys ! (p + k) = xs ! k"
    by blast
  have "take (length xs) (drop p ys) = xs"
    using p by (intro nth_equalityI) auto
  then have "ys = take p ys @ xs @ drop (length xs) (drop p ys)"
    by (metis append_take_drop_id)
  then show "sublist xs ys" unfolding sublist_def by blast
qed

lemma anchor_iff_sublist:
  assumes "toks \<noteq> []"
  shows "(\<exists>s \<in> set (positions_of (toks ! 0) D).
            \<forall>k \<in> {1 ..< length toks}. s + int k \<in> set (positions_of (toks ! k) D))
         \<longleftrightarrow> sublist toks D"
    (is "?L \<longleftrightarrow> _")
proof
  have mem: "\<And>t (k::nat). int k \<in> set (positions_of t D) \<longleftrightarrow> k < length D \<and> D ! k = t"
    by (auto simp: set_positions_of)
  assume ?L
  then obtain s where s: "s \<in> set (positions_of (toks ! 0) D)"
    "\<forall>k \<in> {1 ..< length toks}. s + int k \<in> set (positions_of (toks ! k) D)" by blast
  from s(1) obtain p where p: "s = int p" "p < length D" "D ! p = toks ! 0"
    by (auto simp: set_positions_of)
  have all: "\<forall>k < length toks. p + k < length D \<and> D ! (p + k) = toks ! k"
  proof (intro allI impI)
    fix k assume k: "k < length toks"
    show "p + k < length D \<and> D ! (p + k) = toks ! k"
    proof (cases "k = 0")
      case True
      then show ?thesis using p by simp
    next
      case False
      with k have "k \<in> {1 ..< length toks}" by simp
      with s(2) have "int (p + k) \<in> set (positions_of (toks ! k) D)" by (simp add: p(1))
      then show ?thesis by (simp only: mem)
    qed
  qed
  from assms have "length toks - 1 < length toks" by (cases toks) auto
  with all have "p + (length toks - 1) < length D" by blast
  then have "p + length toks \<le> length D" by linarith
  with all show "sublist toks D" unfolding sublist_iff_nth by blast
next
  have mem: "\<And>t (k::nat). int k \<in> set (positions_of t D) \<longleftrightarrow> k < length D \<and> D ! k = t"
    by (auto simp: set_positions_of)
  assume "sublist toks D"
  then obtain p where p: "p + length toks \<le> length D" "\<forall>k < length toks. D ! (p + k) = toks ! k"
    unfolding sublist_iff_nth by blast
  from assms have pos: "0 < length toks" by simp
  with p have "p < length D" "D ! p = toks ! 0" by (linarith, fastforce)
  then have "int p \<in> set (positions_of (toks ! 0) D)" by (simp add: mem)
  moreover have "\<forall>k \<in> {1 ..< length toks}. int p + int k \<in> set (positions_of (toks ! k) D)"
  proof
    fix k assume "k \<in> {1 ..< length toks}"
    with p have "p + k < length D \<and> D ! (p + k) = toks ! k" by auto
    then have "int (p + k) \<in> set (positions_of (toks ! k) D)" by (simp only: mem)
    then show "int p + int k \<in> set (positions_of (toks ! k) D)" by simp
  qed
  ultimately show ?L by blast
qed

lemma phrase_in_doc_build_test:
  assumes "toks \<noteq> []" "0 \<le> d" "d < int (length docs)"
  shows "phrase_in_doc (build_inverted_index_test nrm docs) toks d =
           Inr (sublist toks (nrm (docs ! nat d)))"
proof -
  let ?D = "nrm (docs ! nat d)"
  let ?idx = "build_inverted_index_test nrm docs"
  have fl: "\<And>t. position_list ?idx t d = positions_of t ?D"
    using assms by (simp add: position_list_build_test)
  have pres: "(\<forall>t \<in> set toks. lookup_positions ?idx t d \<noteq> None) \<longleftrightarrow> set toks \<subseteq> set ?D"
    by (auto simp: lookup_build_None_iff fl positions_of_empty_iff)
  have sub_pres: "sublist toks ?D \<Longrightarrow> set toks \<subseteq> set ?D"
    by (auto simp: sublist_def)
  show ?thesis
    unfolding phrase_in_doc_nonempty [OF assms(1)] pres fl anchor_iff_sublist [OF assms(1)]
    using sub_pres by auto
qed

subsection \<open>The sample documents\<close>

lemma tok_machine_learning: "basic_tokenizer ''machine learning'' = [''machine'', ''learning'']"
  by code_simp

lemma tok_deep_learning: "basic_tokenizer ''deep learning'' = [''deep'', ''learning'']"
  by code_simp

lemma tok_doc0:
  "basic_tokenizer ''Machine learning is fascinating.'' =
     [''machine'', ''learning'', ''is'', ''fascinating'']"
  by code_simp

lemma tok_doc1:
  "basic_tokenizer ''Deep learning is a subset of machine learning.'' =
     [''deep'', ''learning'', ''is'', ''a'', ''subset'', ''of'', ''machine'', ''learning'']"
  by code_simp

lemma tok_doc2:
  "basic_tokenizer ''Artificial intelligence includes machine learning.'' =
     [''artificial'', ''intelligence'', ''includes'', ''machine'', ''learning'']"
  by code_simp

lemma tok_doc3:
  "basic_tokenizer ''Learning about machine algorithms.'' =
     [''learning'', ''about'', ''machine'', ''algorithms'']"
  by code_simp

lemma tok_empty: "basic_tokenizer [] = []"
  by (simp add: basic_tokenizer_def split_def strip_punct_def lower_def)

lemma tok_punct: "basic_tokenizer ''?!'' = []"
  by code_simp

lemma sample_ids: "map int [0 ..< length sample_docs] = [0, 1, 2, 3]"
  by (simp add: sample_docs_def upt_rec)

lemma sample_tokens:
  "basic_tokenizer (sample_docs ! nat 0) = [''machine'', ''learning'', ''is'', ''fascinating'']"
  "basic_tokenizer (sample_docs ! nat 1) =
     [''deep'', ''learning'', ''is'', ''a'', ''subset'', ''of'', ''machine'', ''learning'']"
  "basic_tokenizer (sample_docs ! nat 2) =
     [''artificial'', ''intelligence'', ''includes'', ''machine'', ''learning'']"
  "basic_tokenizer (sample_docs ! nat 3) = [''learning'', ''about'', ''machine'', ''algorithms'']"
  by (simp_all add: sample_docs_def tok_doc0 tok_doc1 tok_doc2 tok_doc3)

lemma sample_in_doc:
  assumes "toks \<noteq> []"
  shows "phrase_in_doc (build_inverted_index_test basic_tokenizer sample_docs) toks 0 =
           Inr (sublist toks [''machine'', ''learning'', ''is'', ''fascinating''])"
    and "phrase_in_doc (build_inverted_index_test basic_tokenizer sample_docs) toks 1 =
           Inr (sublist toks
             [''deep'', ''learning'', ''is'', ''a'', ''subset'', ''of'', ''machine'', ''learning''])"
    and "phrase_in_doc (build_inverted_index_test basic_tokenizer sample_docs) toks 2 =
           Inr (sublist toks [''artificial'', ''intelligence'', ''includes'', ''machine'', ''learning''])"
    and "phrase_in_doc (build_inverted_index_test basic_tokenizer sample_docs) toks 3 =
           Inr (sublist toks [''learning'', ''about'', ''machine'', ''algorithms''])"
proof -
  have len: "int (length sample_docs) = 4" by (simp add: sample_docs_def)
  have in_range: "phrase_in_doc (build_inverted_index_test basic_tokenizer sample_docs) toks d =
      Inr (sublist toks (basic_tokenizer (sample_docs ! nat d)))" if "0 \<le> d" "d < 4" for d
    using assms that by (intro phrase_in_doc_build_test) (simp_all add: len)
  show "phrase_in_doc (build_inverted_index_test basic_tokenizer sample_docs) toks 0 =
           Inr (sublist toks [''machine'', ''learning'', ''is'', ''fascinating''])"
    using in_range [of 0] unfolding sample_tokens by simp
  show "phrase_in_doc (build_inverted_index_test basic_tokenizer sample_docs) toks 1 =
           Inr (sublist toks
             [''deep'', ''learning'', ''is'', ''a'', ''subset'', ''of'', ''machine'', ''learning''])"
    using in_range [of 1] unfolding sample_tokens by simp
  show "phrase_in_doc (build_inverted_index_test basic_tokenizer sample_docs) toks 2 =
           Inr (sublist toks [''artificial'', ''intelligence'', ''includes'', ''machine'', ''learning''])"
    using in_range [of 2] unfolding sample_tokens by simp
  show "phrase_in_doc (build_inverted_index_test basic_tokenizer sample_docs) toks 3 =
           Inr (sublist toks [''learning'', ''about'', ''machine'', ''algorithms''])"
    using in_range [of 3] unfolding sample_tokens by simp
qed

lemma sample_machine_learning:
  "phrase_search basic_tokenizer (build_inverted_index_test basic_tokenizer sample_docs)
     ''machine learning'' sample_docs = Inr [0, 1, 2]"
proof -
  let ?idx = "build_inverted_index_test basic_tokenizer sample_docs"
  let ?toks = "[''machine'', ''learning'']"
  have "phrase_in_doc ?idx ?toks 0 = Inr True"
    by (simp add: sample_in_doc sublist_code(3))
  moreover have "phrase_in_doc ?idx ?toks 1 = Inr True"
    by (simp add: sample_in_doc sublist_code(3))
  moreover have "phrase_in_doc ?idx ?toks 2 = Inr True"
    by (simp add: sample_in_doc sublist_code(3))
  moreover have "phrase_in_doc ?idx ?toks 3 = Inr False"
    by (simp add: sample_in_doc sublist_code(3))
  ultimately show ?thesis
    by (simp add: phrase_search_def tok_machine_learning sample_ids)
qed

lemma sample_deep_learning:
  "phrase_search basic_tokenizer (build_inverted_index_test basic_tokenizer sample_docs)
     ''deep learning'' sample_docs = Inr [1]"
proof -
  let ?idx = "build_inverted_index_test basic_tokenizer sample_docs"
  let ?toks = "[''deep'', ''learning'']"
  have "phrase_in_doc ?idx ?toks 0 = Inr False"
    by (simp add: sample_in_doc sublist_code(3))
  moreover have "phrase_in_doc ?idx ?toks 1 = Inr True"
    by (simp add: sample_in_doc sublist_code(3))
  moreover have "phrase_in_doc ?idx ?toks 2 = Inr False"
    by (simp add: sample_in_doc sublist_code(3))
  moreover have "phrase_in_doc ?idx ?toks 3 = Inr False"
    by (simp add: sample_in_doc sublist_code(3))
  ultimately show ?thesis
    by (simp add: phrase_search_def tok_deep_learning sample_ids)
qed

lemma sample_lookup_learning:
  "lookup_positions (build_inverted_index basic_tokenizer sample_docs) ''learning'' 1 = Some [1, 7]"
proof -
  have len: "int (length sample_docs) = 4" by (simp add: sample_docs_def)
  have pos: "positions_of ''learning''
      [''deep'', ''learning'', ''is'', ''a'', ''subset'', ''of'', ''machine'', ''learning''] = [1, 7]"
    by (simp add: positions_of_def upt_rec)
  show ?thesis
    unfolding lookup_build len sample_tokens pos by simp
qed

lemma small_index_lookups:
  "lookup_positions small_index ''a'' 0 = Some [0, 2]"
  "lookup_positions small_index ''b'' 0 = Some [1]"
  "lookup_positions small_index ''z'' 0 = None"
  "small_index ''z'' = None"
  by (simp_all add: lookup_positions_def small_index_def)

section \<open>The claims\<close>

text \<open>
  C1 (fails on the code). The claim: for a phrase whose normalized term sequence is
  empty, \<^verbatim>\<open>phrase_in_doc\<close> returns false for every document and \<^verbatim>\<open>phrase_search\<close>
  returns the empty sequence, without raising. The code: with no phrase token the
  first loop leaves \<^verbatim>\<open>positions_lists\<close> empty and \<^verbatim>\<open>positions_lists[0]\<close> raises
  \<^verbatim>\<open>IndexError\<close>, for every index and every document; with the Step 4 cell, the
  one-document collection \<^verbatim>\<open>["the cat"]\<close> and the phrase \<^verbatim>\<open>"the"\<close>, a stop word,
  \<^verbatim>\<open>phrase_search\<close> raises as well.
\<close>

theorem empty_phrase_raises_IndexError:
  "phrase_in_doc idx [] doc_id = Inl IndexError \<and>
   phrase_search (normalize_tokens (insert ''the'' stop_words) stem)
     (build_inverted_index (normalize_tokens (insert ''the'' stop_words) stem) [''the cat''])
     ''the'' [''the cat''] = Inl IndexError"
proof -
  have "split (strip_punct (lower ''the'')) = [''the'']" by code_simp
  then have "normalize_tokens (insert ''the'' stop_words) stem ''the'' = []"
    by (simp add: normalize_tokens_def)
  then show ?thesis by (simp add: phrase_in_doc_Nil phrase_search_empty)
qed

text \<open>
  C2. For every document collection, a term is a key of the index built by
  \<^verbatim>\<open>build_inverted_index\<close> exactly when it occurs in the normalized token stream of
  some document; a document identifier is a key under the term exactly when it is the
  identifier of a document whose normalized stream holds the term, and the list stored
  there is \<open>positions_of\<close>: its elements are exactly the zero-based offsets at which
  the term occurs in that stream, and its length is the number of occurrences.
\<close>

theorem build_inverted_index_postings:
  "(build_inverted_index normalizer docs t \<noteq> None \<longleftrightarrow>
      (\<exists>i < length docs. t \<in> set (normalizer (docs ! i)))) \<and>
   lookup_positions (build_inverted_index normalizer docs) t d =
     (if 0 \<le> d \<and> d < int (length docs) \<and> t \<in> set (normalizer (docs ! nat d))
      then Some (positions_of t (normalizer (docs ! nat d))) else None) \<and>
   set (positions_of t toks) = {int p | p. p < length toks \<and> toks ! p = t} \<and>
   length (positions_of t toks) = count_list toks t"
  by (simp only: build_key_iff lookup_build set_positions_of length_positions_of simp_thms)

theorem build_inverted_index_postings_witness:
  "build_inverted_index basic_tokenizer sample_docs ''learning'' \<noteq> None \<and>
   lookup_positions (build_inverted_index basic_tokenizer sample_docs) ''learning'' 1 = Some [1, 7] \<and>
   lookup_positions (build_inverted_index basic_tokenizer sample_docs) ''deep'' 0 = None \<and>
   lookup_positions (build_inverted_index basic_tokenizer sample_docs) ''learning'' 4 = None"
proof -
  have len: "length sample_docs = 4" by (simp add: sample_docs_def)
  have pos: "positions_of ''learning''
      [''deep'', ''learning'', ''is'', ''a'', ''subset'', ''of'', ''machine'', ''learning''] = [1, 7]"
    by (simp add: positions_of_def upt_rec)
  have "''learning'' \<in> set (basic_tokenizer (sample_docs ! nat 1))"
    unfolding sample_tokens by simp
  then have ex: "\<exists>i < length sample_docs. ''learning'' \<in> set (basic_tokenizer (sample_docs ! i))"
    unfolding len by (intro exI [of _ "nat 1"]) simp
  have "build_inverted_index basic_tokenizer sample_docs ''learning'' \<noteq> None"
    using build_inverted_index_postings [of basic_tokenizer sample_docs "''learning''" 1 "[]"] ex
    by blast
  moreover have "lookup_positions (build_inverted_index basic_tokenizer sample_docs) ''learning'' 1
      = Some [1, 7]"
    using build_inverted_index_postings [of basic_tokenizer sample_docs "''learning''" 1 "[]"]
    unfolding len sample_tokens pos by simp
  moreover have "lookup_positions (build_inverted_index basic_tokenizer sample_docs) ''deep'' 0 = None"
    using build_inverted_index_postings [of basic_tokenizer sample_docs "''deep''" 0 "[]"]
    unfolding len sample_tokens by simp
  moreover have "lookup_positions (build_inverted_index basic_tokenizer sample_docs) ''learning'' 4
      = None"
    using build_inverted_index_postings [of basic_tokenizer sample_docs "''learning''" 4 "[]"]
    unfolding len by simp
  ultimately show ?thesis by blast
qed

text \<open>
  C3. For every index, every non-empty phrase and every document such that each phrase
  term has a position list for the document, \<^verbatim>\<open>phrase_in_doc\<close> returns true exactly
  when some position \<open>s\<close> of the first term's list is such that, for every later
  phrase term, at offset \<open>k\<close> from the first, the list of that term holds \<open>s + k\<close>.
\<close>

theorem phrase_in_doc_anchor:
  assumes "phrase_tokens \<noteq> []"
    and "\<forall>t \<in> set phrase_tokens. lookup_positions idx t doc_id \<noteq> None"
  shows "phrase_in_doc idx phrase_tokens doc_id =
     Inr (\<exists>s \<in> set (position_list idx (phrase_tokens ! 0) doc_id).
            \<forall>k \<in> {1 ..< length phrase_tokens}.
              s + int k \<in> set (position_list idx (phrase_tokens ! k) doc_id))"
  using assms by (simp add: phrase_in_doc_nonempty)

theorem phrase_in_doc_anchor_witness:
  "[''a'', ''b''] \<noteq> [] \<and>
   lookup_positions small_index ''a'' 0 \<noteq> None \<and>
   lookup_positions small_index ''b'' 0 \<noteq> None \<and>
   phrase_in_doc small_index [''a'', ''b''] 0 = Inr True \<and>
   phrase_in_doc small_index [''b'', ''a''] 0 = Inr True \<and>
   phrase_in_doc small_index [''a'', ''a''] 0 = Inr False"
proof -
  have pl: "position_list small_index ''a'' 0 = [0, 2]" "position_list small_index ''b'' 0 = [1]"
    by (simp_all add: position_list_def small_index_lookups)
  have two: "{1 ..< length [x, y]} = {1}" for x y :: string by auto
  have h: "\<forall>t \<in> set [x, y]. lookup_positions small_index t 0 \<noteq> None"
    if "x \<in> {''a'', ''b''}" "y \<in> {''a'', ''b''}" for x y
    using that by (auto simp: small_index_lookups)
  have "phrase_in_doc small_index [''a'', ''b''] 0 = Inr True"
    using phrase_in_doc_anchor [of "[''a'', ''b'']" small_index 0] h [of "''a''" "''b''"]
    unfolding two by (simp add: pl)
  moreover have "phrase_in_doc small_index [''b'', ''a''] 0 = Inr True"
    using phrase_in_doc_anchor [of "[''b'', ''a'']" small_index 0] h [of "''b''" "''a''"]
    unfolding two by (simp add: pl)
  moreover have "phrase_in_doc small_index [''a'', ''a''] 0 = Inr False"
    using phrase_in_doc_anchor [of "[''a'', ''a'']" small_index 0] h [of "''a''" "''a''"]
    unfolding two by (simp add: pl)
  ultimately show ?thesis by (simp add: small_index_lookups)
qed

text \<open>
  C4. On the four documents of the test cell, with the index the test cell builds,
  \<^verbatim>\<open>phrase_search\<close> returns \<^verbatim>\<open>[0, 1, 2]\<close> for \<^verbatim>\<open>"machine learning"\<close> and \<^verbatim>\<open>[1]\<close> for
  \<^verbatim>\<open>"deep learning"\<close>.
\<close>

theorem sample_phrase_queries:
  "phrase_search basic_tokenizer (build_inverted_index_test basic_tokenizer sample_docs)
     ''machine learning'' sample_docs = Inr [0, 1, 2] \<and>
   phrase_search basic_tokenizer (build_inverted_index_test basic_tokenizer sample_docs)
     ''deep learning'' sample_docs = Inr [1]"
  by (simp only: sample_machine_learning sample_deep_learning simp_thms)

text \<open>
  C5 (fails on the code). The claim: for every phrase, \<^verbatim>\<open>phrase_search\<close> returns the
  ascending enumeration of the document identifiers for which the phrase is found.
  The code: on the four documents of the test cell and the phrase \<^verbatim>\<open>"?!"\<close>, whose
  token sequence is empty, no sequence is returned: the call raises \<^verbatim>\<open>IndexError\<close>
  at the first document. (For a phrase with a token the result is the enumeration, by
  \<open>phrase_search_nonempty\<close> and \<open>phrase_search_sorted\<close>.)
\<close>

theorem phrase_search_no_token_raises:
  "phrase_search basic_tokenizer (build_inverted_index_test basic_tokenizer sample_docs)
     ''?!'' sample_docs = Inl IndexError"
  by (simp add: phrase_search_empty tok_punct) (simp add: sample_docs_def)

text \<open>
  C6. For every index (built or not), every term and every document identifier,
  \<^verbatim>\<open>phrase_in_doc\<close> on the one-term phrase returns true exactly when the index holds a
  non-empty position list for the term and the document; on a built index, that is
  exactly when the document exists and its normalized stream holds the term.
\<close>

theorem phrase_in_doc_single_term:
  "phrase_in_doc idx [t] d = Inr (\<exists>ps. lookup_positions idx t d = Some ps \<and> ps \<noteq> []) \<and>
   phrase_in_doc (build_inverted_index normalizer docs) [t] d =
     Inr (0 \<le> d \<and> d < int (length docs) \<and> t \<in> set (normalizer (docs ! nat d)))"
proof -
  have "(\<exists>ps. lookup_positions (build_inverted_index normalizer docs) t d = Some ps \<and> ps \<noteq> [])
      \<longleftrightarrow> 0 \<le> d \<and> d < int (length docs) \<and> t \<in> set (normalizer (docs ! nat d))"
    by (simp add: lookup_build positions_of_empty_iff)
  then show ?thesis by (simp only: phrase_in_doc_single simp_thms)
qed

text \<open>
  C7. For every index, phrase and document identifier, if some phrase term is not a
  key of the index, or the document is not a key under it, \<^verbatim>\<open>phrase_in_doc\<close>
  returns false; and if some term of the normalized phrase is not a key of the index,
  \<^verbatim>\<open>phrase_search\<close> returns the empty list. Neither raises.
\<close>

theorem phrase_in_doc_missing_term:
  "((\<exists>t \<in> set phrase_tokens. lookup_positions idx t doc_id = None) \<longrightarrow>
      phrase_in_doc idx phrase_tokens doc_id = Inr False) \<and>
   ((\<exists>t \<in> set (normalizer phrase). idx t = None) \<longrightarrow>
      phrase_search normalizer idx phrase docs = Inr [])"
proof (intro conjI impI)
  assume "\<exists>t \<in> set phrase_tokens. lookup_positions idx t doc_id = None"
  then show "phrase_in_doc idx phrase_tokens doc_id = Inr False"
    by (auto intro: phrase_in_doc_missing)
next
  assume "\<exists>t \<in> set (normalizer phrase). idx t = None"
  then obtain t where t: "t \<in> set (normalizer phrase)" "idx t = None" by blast
  then have ne: "normalizer phrase \<noteq> []" by auto
  have "phrase_in_doc idx (normalizer phrase) d = Inr False" for d
    using t by (intro phrase_in_doc_missing [of t]) (simp_all add: lookup_positions_def)
  then show "phrase_search normalizer idx phrase docs = Inr []"
    by (simp add: phrase_search_nonempty [of normalizer phrase, OF ne])
qed

theorem phrase_in_doc_missing_term_witness:
  "(\<exists>t \<in> set [''a'', ''z'']. lookup_positions small_index t 0 = None) \<and>
   phrase_in_doc small_index [''a'', ''z''] 0 = Inr False \<and>
   (\<exists>t \<in> set (basic_tokenizer ''deep learning''). small_index t = None) \<and>
   phrase_search basic_tokenizer small_index ''deep learning'' sample_docs = Inr []"
proof -
  have h1: "\<exists>t \<in> set [''a'', ''z'']. lookup_positions small_index t 0 = None"
    by (simp add: small_index_lookups)
  have h2: "\<exists>t \<in> set (basic_tokenizer ''deep learning''). small_index t = None"
    by (simp add: tok_deep_learning small_index_def)
  from h1 h2
    phrase_in_doc_missing_term [of "[''a'', ''z'']" small_index 0 basic_tokenizer
      "''deep learning''" sample_docs]
  show ?thesis by blast
qed

text \<open>
  C8. For every document collection, term and document identifier, a position list
  stored in the index built by \<^verbatim>\<open>build_inverted_index\<close> is strictly increasing.
\<close>

theorem positions_strictly_increasing:
  "lookup_positions (build_inverted_index normalizer docs) t d = Some ps \<Longrightarrow> sorted_wrt (<) ps"
  by (auto simp: lookup_build sorted_positions_of split: if_splits)

theorem positions_strictly_increasing_witness:
  "lookup_positions (build_inverted_index basic_tokenizer sample_docs) ''learning'' 1 = Some [1, 7] \<and>
   sorted_wrt (<) [1, 7 :: int]"
  using positions_strictly_increasing [OF sample_lookup_learning] sample_lookup_learning
  by blast

text \<open>
  C9. For every index built from \<open>n\<close> documents and every non-empty phrase,
  \<^verbatim>\<open>phrase_in_doc\<close> at a document identifier below 0 or at least \<open>n\<close> returns false
  and does not raise.
\<close>

theorem phrase_in_doc_out_of_range:
  assumes "phrase_tokens \<noteq> []" and "doc_id < 0 \<or> int (length docs) \<le> doc_id"
  shows "phrase_in_doc (build_inverted_index normalizer docs) phrase_tokens doc_id = Inr False"
proof -
  obtain t where "t \<in> set phrase_tokens" using assms(1) by (cases phrase_tokens) auto
  moreover have "lookup_positions (build_inverted_index normalizer docs) t doc_id = None"
    using assms(2) by (auto simp: lookup_build)
  ultimately show ?thesis by (rule phrase_in_doc_missing)
qed

theorem phrase_in_doc_out_of_range_witness:
  "[''machine'', ''learning''] \<noteq> [] \<and>
   ((-1 :: int) < 0 \<or> int (length sample_docs) \<le> -1) \<and>
   phrase_in_doc (build_inverted_index basic_tokenizer sample_docs) [''machine'', ''learning''] (-1)
     = Inr False \<and>
   ((4 :: int) < 0 \<or> int (length sample_docs) \<le> 4) \<and>
   phrase_in_doc (build_inverted_index basic_tokenizer sample_docs) [''machine'', ''learning''] 4
     = Inr False"
proof -
  have ne: "[''machine'', ''learning''] \<noteq> []" by simp
  have lo: "(-1 :: int) < 0 \<or> int (length sample_docs) \<le> -1" by simp
  have hi: "(4 :: int) < 0 \<or> int (length sample_docs) \<le> 4" by (simp add: sample_docs_def)
  from ne lo hi
    phrase_in_doc_out_of_range [OF ne lo, of basic_tokenizer]
    phrase_in_doc_out_of_range [OF ne hi, of basic_tokenizer]
  show ?thesis by blast
qed

text \<open>
  C10. The builder of the Step 4 cell and the builder of the test cell return the same
  index whenever their normalizers give the same token sequence for every document of
  the collection; the set \<^verbatim>\<open>seen_in_doc\<close> does not reach the index: the inner loop
  that fills it leaves the index the inner loop without it leaves.
\<close>

theorem build_variants_agree:
  "((\<forall>doc \<in> set docs. normalizer1 doc = normalizer2 doc) \<longrightarrow>
      build_inverted_index normalizer1 docs = build_inverted_index_test normalizer2 docs) \<and>
   fst (index_tokens doc_id tokens idx) = index_tokens_test doc_id tokens idx"
  by (simp add: build_eq_build_test build_test_cong fst_index_tokens)

theorem build_variants_agree_witness:
  "map (normalize_tokens {} id) sample_docs = map basic_tokenizer sample_docs \<and>
   build_inverted_index (normalize_tokens {} id) sample_docs =
     build_inverted_index_test basic_tokenizer sample_docs"
proof -
  have h: "\<forall>doc \<in> set sample_docs. normalize_tokens {} id doc = basic_tokenizer doc"
    by (simp add: normalize_tokens_def basic_tokenizer_def)
  with build_variants_agree [of sample_docs "normalize_tokens {} id" basic_tokenizer]
  show ?thesis by simp
qed

end
